theory Spec2Isabelle
  imports Main "HOL-Library.Char_ord" "HOL-Library.List_Lexorder" "HOL-Library.Product_Lexorder"
    "HOL-Library.Multiset"
begin

section \<open>Fixed linguistic tables (user\_preprocess.py)\<close>

text \<open>
  The module-level constants of \<^verbatim>\<open>user_preprocess.py\<close>. Python sets are HOL sets,
  Python dicts are maps; \<^verbatim>\<open>k in d\<close> is \<open>d k \<noteq> None\<close>, \<^verbatim>\<open>d[k]\<close> under that
  guard is \<open>the (d k)\<close>, and \<^verbatim>\<open>d.get(k, v)\<close> is \<open>dict_get d k v\<close>.
\<close>

definition AUX_VERBS :: "string set" where
  "AUX_VERBS = {''am'', ''is'', ''are'', ''was'', ''were'', ''has'', ''have'', ''had''}"

definition BASE_VERB_TO_ING :: "string \<rightharpoonup> string" where
  "BASE_VERB_TO_ING = map_of
     [(''be'', ''being''),
      (''have'', ''having''),
      (''do'', ''doing''),
      (''go'', ''going''),
      (''rise'', ''rising''),
      (''come'', ''coming''),
      (''happen'', ''happening''),
      (''move'', ''moving''),
      (''determine'', ''determining''),
      (''use'', ''using'')]"

definition IRREGULAR_PAST :: "string \<rightharpoonup> string" where
  "IRREGULAR_PAST = map_of
     [(''move'', ''moved''),
      (''go'', ''gone''),
      (''come'', ''come''),
      (''rise'', ''risen''),
      (''be'', ''been''),
      (''have'', ''had''),
      (''do'', ''done'')]"

definition FUNCTION_WORDS :: "string set" where
  "FUNCTION_WORDS = {''this'', ''that'', ''a'', ''an'', ''the'', ''and'', ''or'', ''of'',
     ''in'', ''on'', ''for'', ''to'', ''with'', ''by'', ''at''}"

definition dict_get :: "('k \<rightharpoonup> 'v) \<Rightarrow> 'k \<Rightarrow> 'v \<Rightarrow> 'v" where
  "dict_get d k v = (case d k of Some x \<Rightarrow> x | None \<Rightarrow> v)"

section \<open>The grammar transformer (apply\_display\_grammar)\<close>

datatype py_error = IndexError

text \<open>
  \<^verbatim>\<open>display_tokens[-1]\<close>: the last element of a list, an IndexError on the empty list.
\<close>

definition last_item :: "'a list \<Rightarrow> py_error + 'a" where
  "last_item xs = (if xs = [] then Inl IndexError else Inr (last xs))"

text \<open>
  The \<^verbatim>\<open>while i < len(tokens)\<close> loop, with its three local variables passed as
  arguments. Each \<^verbatim>\<open>continue\<close> is a recursive call; leaving the loop returns the pair
  \<^verbatim>\<open>(display_tokens, grammar_indices)\<close>. The reads \<^verbatim>\<open>tokens[i]\<close> and
  \<^verbatim>\<open>tokens[i + 1]\<close> are guarded by the source's own bounds tests.
\<close>

function adg_loop ::
  "string list \<Rightarrow> nat \<Rightarrow> string list \<Rightarrow> nat list \<Rightarrow> py_error + (string list \<times> nat list)"
where
  "adg_loop tokens i display_tokens grammar_indices =
    (if i < length tokens then
       (let tok = tokens ! i in
        case (if i > 0 then last_item display_tokens else Inr '''') of
          Inl e \<Rightarrow> Inl e
        | Inr prev \<Rightarrow>
            if prev \<in> {''am'', ''is'', ''are'', ''was'', ''were''} \<and> BASE_VERB_TO_ING tok \<noteq> None then
              adg_loop tokens (i + 1)
                (display_tokens @ [the (BASE_VERB_TO_ING tok)]) (grammar_indices @ [i])
            else if prev \<in> {''has'', ''have'', ''had''} then
              (if tok = ''not'' \<and> i + 1 < length tokens then
                 (let next_tok = tokens ! (i + 1);
                      past_tok = dict_get IRREGULAR_PAST next_tok next_tok
                  in adg_loop tokens (i + 2)
                       (display_tokens @ [tok] @ [past_tok]) (grammar_indices @ [i + 1]))
               else
                 (let past_tok = dict_get IRREGULAR_PAST tok tok
                  in adg_loop tokens (i + 1)
                       (display_tokens @ [past_tok]) (grammar_indices @ [i])))
            else adg_loop tokens (i + 1) (display_tokens @ [tok]) grammar_indices)
     else Inr (display_tokens, grammar_indices))"
  by pat_completeness auto
termination
  by (relation "measure (\<lambda>(tokens, i, d, g). length tokens - i)") auto

declare adg_loop.simps [simp del]

definition apply_display_grammar :: "string list \<Rightarrow> py_error + (string list \<times> nat list)" where
  "apply_display_grammar tokens = adg_loop tokens 0 [] []"

text \<open>
  An equivalent presentation of the loop by recursion on the tokens still to be read,
  used only in proofs (lemma \<open>adg_loop_rewrite_from\<close> ties it to \<open>adg_loop\<close>):
  \<open>rewrite_from prev rest\<close> lists what the loop appends for \<open>rest\<close> when the last
  display token is \<open>prev\<close>, each output paired with whether its position is recorded,
  and \<open>marked_from i\<close> reads off the recorded positions, counting from \<open>i\<close>.
\<close>

fun rewrite_from :: "string \<Rightarrow> string list \<Rightarrow> (string \<times> bool) list" where
  "rewrite_from prev [] = []"
| "rewrite_from prev (tok # rest) =
    (if prev \<in> {''am'', ''is'', ''are'', ''was'', ''were''} \<and> BASE_VERB_TO_ING tok \<noteq> None then
       (the (BASE_VERB_TO_ING tok), True) # rewrite_from (the (BASE_VERB_TO_ING tok)) rest
     else if prev \<in> {''has'', ''have'', ''had''} then
       (case rest of
          next_tok # rest' \<Rightarrow>
            if tok = ''not'' then
              (tok, False) # (dict_get IRREGULAR_PAST next_tok next_tok, True)
                # rewrite_from (dict_get IRREGULAR_PAST next_tok next_tok) rest'
            else (dict_get IRREGULAR_PAST tok tok, True)
                   # rewrite_from (dict_get IRREGULAR_PAST tok tok) rest
        | [] \<Rightarrow> [(dict_get IRREGULAR_PAST tok tok, True)])
     else (tok, False) # rewrite_from tok rest)"

fun marked_from :: "nat \<Rightarrow> ('a \<times> bool) list \<Rightarrow> nat list" where
  "marked_from i [] = []"
| "marked_from i ((t, b) # xs) = (if b then i # marked_from (Suc i) xs else marked_from (Suc i) xs)"

definition prev_of :: "nat \<Rightarrow> string list \<Rightarrow> string" where
  "prev_of i d = (if i = 0 then [] else last d)"

section \<open>The tokenizer (preprocess\_user\_input)\<close>

text \<open>
  A text is a list of characters. On the ASCII characters Python fixes what the tokenizer
  needs: \<^verbatim>\<open>str.lower\<close> maps \<^verbatim>\<open>A-Z\<close> to \<^verbatim>\<open>a-z\<close> and leaves every other ASCII
  character alone, and \<^verbatim>\<open>\w\<close> holds of the letters, the digits and the underscore. What
  they do outside ASCII is decided by the Unicode tables of the Python runtime, which are
  not part of the sources. These are two parameters: \<open>unicode_word\<close>, the word characters
  among the non-ASCII characters, and \<open>unicode_lower\<close>, the lowercasing of a text that
  has a non-ASCII character (it works on the whole text, as Unicode lowercasing depends on
  the context and may change the length). The class \<^verbatim>\<open>[a-z]\<close> is the 26 lowercase
  ASCII letters, whatever the tables.
\<close>

definition ascii_lowercase :: string where
  "ascii_lowercase = ''abcdefghijklmnopqrstuvwxyz''"

definition ascii_uppercase :: string where
  "ascii_uppercase = ''ABCDEFGHIJKLMNOPQRSTUVWXYZ''"

definition digits :: string where
  "digits = ''0123456789''"

definition is_ascii :: "char \<Rightarrow> bool" where
  "is_ascii c = (of_char c < (128 :: nat))"

definition is_az :: "char \<Rightarrow> bool" where
  "is_az c = (c \<in> set ascii_lowercase)"

text \<open>The ASCII letters.\<close>

definition is_alpha :: "char \<Rightarrow> bool" where
  "is_alpha c = (c \<in> set ascii_lowercase \<or> c \<in> set ascii_uppercase)"

definition is_word_char :: "(char \<Rightarrow> bool) \<Rightarrow> char \<Rightarrow> bool" where
  "is_word_char unicode_word c =
     (if is_ascii c then is_alpha c \<or> c \<in> set digits \<or> c = CHR ''_'' else unicode_word c)"

definition ascii_lower :: "char \<Rightarrow> char" where
  "ascii_lower c = (case map_of (zip ascii_uppercase ascii_lowercase) c of Some l \<Rightarrow> l | None \<Rightarrow> c)"

definition str_lower :: "(string \<Rightarrow> string) \<Rightarrow> string \<Rightarrow> string" where
  "str_lower unicode_lower text =
     (if list_all is_ascii text then map ascii_lower text else unicode_lower text)"

text \<open>
  \<^verbatim>\<open>re.findall(r'\b[a-z]+\b', text)\<close>. The assertion \<^verbatim>\<open>\b\<close> holds at a position
  when exactly one of the characters left and right of it is a word character, the two
  ends of the text counting as non-word (\<open>None\<close>).
\<close>

fun is_word_opt :: "(char \<Rightarrow> bool) \<Rightarrow> char option \<Rightarrow> bool" where
  "is_word_opt uw None = False"
| "is_word_opt uw (Some c) = is_word_char uw c"

definition word_boundary :: "(char \<Rightarrow> bool) \<Rightarrow> char option \<Rightarrow> char option \<Rightarrow> bool" where
  "word_boundary uw l r = (is_word_opt uw l \<noteq> is_word_opt uw r)"

definition nth_opt :: "'a list \<Rightarrow> nat \<Rightarrow> 'a option" where
  "nth_opt xs k = (if k < length xs then Some (xs ! k) else None)"

text \<open>
  The greedy \<^verbatim>\<open>[a-z]+\<close> followed by \<^verbatim>\<open>\b\<close>: having consumed \<open>k\<close> letters of \<open>s\<close>,
  the engine tests the boundary after them and, when it fails, gives one letter back;
  with no letter left the attempt fails.
\<close>

fun backtrack :: "(char \<Rightarrow> bool) \<Rightarrow> string \<Rightarrow> nat \<Rightarrow> nat option" where
  "backtrack uw s 0 = None"
| "backtrack uw s (Suc k) =
     (if word_boundary uw (Some (s ! k)) (nth_opt s (Suc k)) then Some (Suc k)
      else backtrack uw s k)"

text \<open>
  One match attempt at the start of \<open>s\<close>, the character before it being \<open>prev\<close>:
  the leading \<^verbatim>\<open>\b\<close>, then the longest run of letters, then the backtracking above.
  The result is the length of the match.
\<close>

definition match_at :: "(char \<Rightarrow> bool) \<Rightarrow> char option \<Rightarrow> string \<Rightarrow> nat option" where
  "match_at uw prev s =
     (if word_boundary uw prev (nth_opt s 0)
      then backtrack uw s (length (takeWhile is_az s)) else None)"

text \<open>
  The scan of \<^verbatim>\<open>findall\<close>: a match is emitted and the scan goes on after it, a failed
  attempt moves the start one character to the right.
\<close>

function findall_from :: "(char \<Rightarrow> bool) \<Rightarrow> char option \<Rightarrow> string \<Rightarrow> string list" where
  "findall_from uw prev [] = []"
| "findall_from uw prev (c # cs) =
     (case match_at uw prev (c # cs) of
        Some k \<Rightarrow>
          take k (c # cs) # findall_from uw (nth_opt (c # cs) (k - 1)) (drop k (c # cs))
      | None \<Rightarrow> findall_from uw (Some c) cs)"
  by pat_completeness auto
termination
proof (relation "measure (\<lambda>(uw, prev, s). length s)")
  show "wf (measure (\<lambda>(uw :: char \<Rightarrow> bool, prev :: char option, s :: string). length s))"
    by simp
next
  fix uw :: "char \<Rightarrow> bool" and prev :: "char option" and c :: char and cs :: string and k :: nat
  assume m: "match_at uw prev (c # cs) = Some k"
  have pos: "backtrack uw s n = Some j \<Longrightarrow> 0 < j" for s n j
    by (induction n) (auto split: if_splits)
  from m have "0 < k"
    by (auto simp: match_at_def split: if_splits dest: pos)
  then show "((uw, nth_opt (c # cs) (k - 1), drop k (c # cs)), (uw, prev, c # cs))
             \<in> measure (\<lambda>(uw, prev, s). length s)"
    by simp
next
  fix uw :: "char \<Rightarrow> bool" and prev :: "char option" and c :: char and cs :: string
  show "((uw, Some c, cs), (uw, prev, c # cs)) \<in> measure (\<lambda>(uw, prev, s). length s)"
    by simp
qed

definition re_findall :: "(char \<Rightarrow> bool) \<Rightarrow> string \<Rightarrow> string list" where
  "re_findall uw text = findall_from uw None text"

definition startswith :: "string \<Rightarrow> string \<Rightarrow> bool" where
  "startswith s p = (take (length p) s = p)"

text \<open>
  \<^verbatim>\<open>preprocess_user_input\<close>. The tagger \<^verbatim>\<open>nltk.pos_tag\<close> and the WordNet
  lemmatizer are library code: they are the parameters \<open>pos_tag\<close> (tokens to
  word--tag pairs) and \<open>lemmatize\<close> (word and part of speech to lemma, \<^verbatim>\<open>'n'\<close> being
  the library's default part of speech).
\<close>

definition tokenize :: "(char \<Rightarrow> bool) \<Rightarrow> (string \<Rightarrow> string) \<Rightarrow> string \<Rightarrow> string list" where
  "tokenize uw ul text = re_findall uw (str_lower ul text)"

definition preprocess_user_input ::
  "(char \<Rightarrow> bool) \<Rightarrow> (string \<Rightarrow> string) \<Rightarrow>
   (string list \<Rightarrow> (string \<times> string) list) \<Rightarrow> (string \<Rightarrow> string \<Rightarrow> string) \<Rightarrow> string \<Rightarrow> string list"
where
  "preprocess_user_input uw ul pos_tag lemmatize text =
     (let tokens = tokenize uw ul text;
          tagged_tokens = pos_tag tokens
      in map (\<lambda>(word, tag).
                if word \<in> AUX_VERBS then word
                else if startswith tag ''V'' then lemmatize word ''v''
                else lemmatize word ''n'')
           tagged_tokens)"

text \<open>
  The reading of the specification's tokenizer: the maximal non-empty runs of
  characters satisfying \<open>P\<close>, in order. \<open>runs is_az\<close> are the maximal runs of letters,
  \<open>runs (is_word_char uw)\<close> the maximal runs of word characters.
\<close>

function runs :: "('a \<Rightarrow> bool) \<Rightarrow> 'a list \<Rightarrow> 'a list list" where
  "runs P [] = []"
| "runs P (x # xs) =
     (if P x then (x # takeWhile P xs) # runs P (dropWhile P xs) else runs P xs)"
  by pat_completeness auto
termination
  by (relation "measure (\<lambda>(P, xs). length xs)")
     (auto simp: length_dropWhile_le less_Suc_eq_le)

section \<open>The candidate ranker and the highlighting (app.py)\<close>

text \<open>
  Modelled from the spec: \<^verbatim>\<open>nltk.metrics.edit_distance\<close> is library code that is not part
  of the sources; the specification fixes it as the Levenshtein distance with unit cost for
  insertion, deletion and substitution, which is what the library computes with its default
  arguments.
\<close>

fun edit_distance :: "string \<Rightarrow> string \<Rightarrow> nat" where
  "edit_distance [] t = length t"
| "edit_distance s [] = length s"
| "edit_distance (a # s) (b # t) =
     min (min (edit_distance s (b # t) + 1) (edit_distance (a # s) t + 1))
         (edit_distance s t + (if a = b then 0 else 1))"

text \<open>
  An entry of \<^verbatim>\<open>errors\<close> is a dict with the keys \<^verbatim>\<open>word\<close>, \<^verbatim>\<open>type\<close> and,
  possibly, \<^verbatim>\<open>suggestions\<close> (read with \<^verbatim>\<open>err.get('suggestions', [])\<close>).
\<close>

record err =
  err_word :: string
  err_type :: string
  err_suggestions :: "string list option"

text \<open>
  \<^verbatim>\<open>sorted(xs, key=f)\<close> is a stable sort, as is \<open>sort_key\<close>.
\<close>

definition ranked_suggestions :: "err \<Rightarrow> string list" where
  "ranked_suggestions e =
     sort_key (\<lambda>w. edit_distance (err_word e) w)
       (case err_suggestions e of Some sugg \<Rightarrow> sugg | None \<Rightarrow> [])"

definition suggestion_map :: "err list \<Rightarrow> (string \<rightharpoonup> string list)" where
  "suggestion_map errors = fold (\<lambda>e m. m(err_word e \<mapsto> ranked_suggestions e)) errors Map.empty"

definition spelling_words :: "err list \<Rightarrow> string set" where
  "spelling_words errors = err_word ` set errors"

datatype highlight = Red | Green | Plain

definition highlighted ::
  "(string \<Rightarrow> string) \<Rightarrow> string set \<Rightarrow> nat list \<Rightarrow> nat \<Rightarrow> string \<Rightarrow> highlight"
where
  "highlighted ul spelling grammar_indices i word =
     (let lw = str_lower ul word
      in if lw \<in> spelling \<and> lw \<notin> FUNCTION_WORDS then Red
         else if i \<in> set grammar_indices then Green
         else Plain)"

text \<open>
  Modelled from the spec: \<^verbatim>\<open>detect_errors\<close> lives in the module \<^verbatim>\<open>corrections\<close>,
  which is not part of the sources; only its caller \<^verbatim>\<open>app.py\<close> is. Following section 4.3
  of the specification, it returns one entry of type \<^verbatim>\<open>spelling\<close> for each distinct lemma
  that is not in the vocabulary, not a function word and not an auxiliary verb, with the
  candidates of that lemma attached. The candidate generation is left open by the
  specification and is the parameter \<open>candidates\<close>.
\<close>

definition detect_errors :: "string set \<Rightarrow> (string \<Rightarrow> string list) \<Rightarrow> string list \<Rightarrow> err list" where
  "detect_errors vocab candidates lemmas =
     map (\<lambda>w. \<lparr>err_word = w, err_type = ''spelling'', err_suggestions = Some (candidates w)\<rparr>)
       (remdups (filter (\<lambda>w. w \<notin> vocab \<and> w \<notin> FUNCTION_WORDS \<and> w \<notin> AUX_VERBS) lemmas))"


section \<open>The loop and its recursive presentation\<close>

lemma adg_loop_step:
  assumes "i < length ts" and "(if 0 < i then last_item d else Inr []) = Inr p"
  shows "adg_loop ts i d g =
    (if p \<in> {''am'', ''is'', ''are'', ''was'', ''were''} \<and> BASE_VERB_TO_ING (ts ! i) \<noteq> None then
       adg_loop ts (i + 1) (d @ [the (BASE_VERB_TO_ING (ts ! i))]) (g @ [i])
     else if p \<in> {''has'', ''have'', ''had''} then
       (if ts ! i = ''not'' \<and> i + 1 < length ts then
          adg_loop ts (i + 2)
            (d @ [ts ! i] @ [dict_get IRREGULAR_PAST (ts ! (i + 1)) (ts ! (i + 1))]) (g @ [i + 1])
        else adg_loop ts (i + 1) (d @ [dict_get IRREGULAR_PAST (ts ! i) (ts ! i)]) (g @ [i]))
     else adg_loop ts (i + 1) (d @ [ts ! i]) g)"
  by (subst adg_loop.simps) (simp only: if_P[OF assms(1)] Let_def assms(2) sum.case)

lemma adg_loop_rewrite_from:
  "length d = i \<Longrightarrow> i \<le> length ts \<Longrightarrow>
   adg_loop ts i d g =
     Inr (d @ map fst (rewrite_from (prev_of i d) (drop i ts)),
          g @ marked_from i (rewrite_from (prev_of i d) (drop i ts)))"
proof (induction ts i d g rule: adg_loop.induct)
  case (1 ts i d g)
  show ?case
  proof (cases "i < length ts")
    case False
    with "1.prems" show ?thesis by (subst adg_loop.simps) simp
  next
    case lt: True
    have dr: "drop i ts = ts ! i # drop (Suc i) ts"
      using lt by (simp add: Cons_nth_drop_Suc)
    have li: "(if 0 < i then last_item d else Inr []) = Inr (prev_of i d)"
      using "1.prems" by (auto simp: last_item_def prev_of_def)
    let ?p = "prev_of i d" and ?tok = "ts ! i"
    consider (A) "?p \<in> {''am'', ''is'', ''are'', ''was'', ''were''} \<and> BASE_VERB_TO_ING ?tok \<noteq> None"
      | (Bnot) "\<not> (?p \<in> {''am'', ''is'', ''are'', ''was'', ''were''} \<and> BASE_VERB_TO_ING ?tok \<noteq> None)"
          "?p \<in> {''has'', ''have'', ''had''}" "?tok = ''not'' \<and> i + 1 < length ts"
      | (B) "\<not> (?p \<in> {''am'', ''is'', ''are'', ''was'', ''were''} \<and> BASE_VERB_TO_ING ?tok \<noteq> None)"
          "?p \<in> {''has'', ''have'', ''had''}" "\<not> (?tok = ''not'' \<and> i + 1 < length ts)"
      | (D) "\<not> (?p \<in> {''am'', ''is'', ''are'', ''was'', ''were''} \<and> BASE_VERB_TO_ING ?tok \<noteq> None)"
          "?p \<notin> {''has'', ''have'', ''had''}"
      by blast
    then show ?thesis
    proof cases
      case A
      let ?ing = "the (BASE_VERB_TO_ING ?tok)"
      have step: "adg_loop ts i d g = adg_loop ts (i + 1) (d @ [?ing]) (g @ [i])"
        by (simp only: adg_loop_step[OF lt li] if_P[OF A])
      have rw: "rewrite_from ?p (drop i ts) = (?ing, True) # rewrite_from ?ing (drop (Suc i) ts)"
        by (subst dr, subst rewrite_from.simps(2)) (simp only: if_P[OF A])
      have pv: "prev_of (i + 1) (d @ [?ing]) = ?ing"
        by (simp add: prev_of_def)
      have "adg_loop ts (i + 1) (d @ [?ing]) (g @ [i]) =
            Inr ((d @ [?ing]) @
                   map fst (rewrite_from (prev_of (i + 1) (d @ [?ing])) (drop (i + 1) ts)),
                 (g @ [i]) @
                   marked_from (i + 1) (rewrite_from (prev_of (i + 1) (d @ [?ing])) (drop (i + 1) ts)))"
        using "1.IH"(1)[OF lt refl li A] "1.prems" lt by simp
      then show ?thesis
        unfolding step rw pv by simp
    next
      case Bnot
      let ?past = "dict_get IRREGULAR_PAST (ts ! (i + 1)) (ts ! (i + 1))"
      have dr2: "drop (Suc i) ts = ts ! (i + 1) # drop (i + 2) ts"
        using Bnot(3) by (simp add: Cons_nth_drop_Suc)
      have step: "adg_loop ts i d g = adg_loop ts (i + 2) (d @ [?tok] @ [?past]) (g @ [i + 1])"
        by (simp only: adg_loop_step[OF lt li] if_not_P[OF Bnot(1)] if_P[OF Bnot(2)] if_P[OF Bnot(3)])
      have rw: "rewrite_from ?p (drop i ts) =
                  (?tok, False) # (?past, True) # rewrite_from ?past (drop (i + 2) ts)"
        by (subst dr, subst rewrite_from.simps(2))
           (simp only: if_not_P[OF Bnot(1)] if_P[OF Bnot(2)] dr2 list.case
              if_P[OF conjunct1[OF Bnot(3)]])
      have pv: "prev_of (i + 2) (d @ [?tok] @ [?past]) = ?past"
        by (simp add: prev_of_def)
      have "adg_loop ts (i + 2) (d @ [?tok] @ [?past]) (g @ [i + 1]) =
            Inr ((d @ [?tok] @ [?past]) @
                   map fst (rewrite_from (prev_of (i + 2) (d @ [?tok] @ [?past])) (drop (i + 2) ts)),
                 (g @ [i + 1]) @
                   marked_from (i + 2) (rewrite_from (prev_of (i + 2) (d @ [?tok] @ [?past])) (drop (i + 2) ts)))"
        using "1.IH"(2)[OF lt refl li Bnot(1) Bnot(2) Bnot(3) refl refl] "1.prems" Bnot(3) by simp
      then show ?thesis
        unfolding step rw pv by simp
    next
      case B
      let ?past = "dict_get IRREGULAR_PAST ?tok ?tok"
      have step: "adg_loop ts i d g = adg_loop ts (i + 1) (d @ [?past]) (g @ [i])"
        by (simp only: adg_loop_step[OF lt li] if_not_P[OF B(1)] if_P[OF B(2)] if_not_P[OF B(3)])
      have tok_not: "?tok = ''not'' \<Longrightarrow> drop (Suc i) ts = []"
        using B(3) by simp
      have rw: "rewrite_from ?p (drop i ts) = (?past, True) # rewrite_from ?past (drop (Suc i) ts)"
      proof (cases "drop (Suc i) ts")
        case Nil
        show ?thesis
          by (subst dr, subst rewrite_from.simps(2))
             (simp only: if_not_P[OF B(1)] if_P[OF B(2)] Nil list.case rewrite_from.simps(1))
      next
        case (Cons a rest)
        with tok_not have ne: "?tok \<noteq> ''not''" by auto
        show ?thesis
          by (subst dr, subst rewrite_from.simps(2))
             (simp only: if_not_P[OF B(1)] if_P[OF B(2)] Cons list.case if_not_P[OF ne])
      qed
      have pv: "prev_of (i + 1) (d @ [?past]) = ?past"
        by (simp add: prev_of_def)
      have "adg_loop ts (i + 1) (d @ [?past]) (g @ [i]) =
            Inr ((d @ [?past]) @
                   map fst (rewrite_from (prev_of (i + 1) (d @ [?past])) (drop (i + 1) ts)),
                 (g @ [i]) @
                   marked_from (i + 1) (rewrite_from (prev_of (i + 1) (d @ [?past])) (drop (i + 1) ts)))"
        using "1.IH"(3)[OF lt refl li B(1) B(2) B(3) refl] "1.prems" lt by simp
      then show ?thesis
        unfolding step rw pv by simp
    next
      case D
      have step: "adg_loop ts i d g = adg_loop ts (i + 1) (d @ [?tok]) g"
        by (simp only: adg_loop_step[OF lt li] if_not_P[OF D(1)] if_not_P[OF D(2)])
      have rw: "rewrite_from ?p (drop i ts) = (?tok, False) # rewrite_from ?tok (drop (Suc i) ts)"
        by (subst dr, subst rewrite_from.simps(2)) (simp only: if_not_P[OF D(1)] if_not_P[OF D(2)])
      have pv: "prev_of (i + 1) (d @ [?tok]) = ?tok"
        by (simp add: prev_of_def)
      have "adg_loop ts (i + 1) (d @ [?tok]) g =
            Inr ((d @ [?tok]) @
                   map fst (rewrite_from (prev_of (i + 1) (d @ [?tok])) (drop (i + 1) ts)),
                 g @ marked_from (i + 1) (rewrite_from (prev_of (i + 1) (d @ [?tok])) (drop (i + 1) ts)))"
        using "1.IH"(4)[OF lt refl li D(1) D(2)] "1.prems" lt by simp
      then show ?thesis
        unfolding step rw pv by simp
    qed
  qed
qed

section \<open>Facts about the fixed tables\<close>

lemma ing_cases:
  "BASE_VERB_TO_ING t = Some v \<Longrightarrow>
   v \<in> {''being'', ''having'', ''doing'', ''going'', ''rising'', ''coming'', ''happening'',
        ''moving'', ''determining'', ''using''}"
  unfolding BASE_VERB_TO_ING_def
  by (simp split: if_splits)

lemma ing_of_ing:
  "v \<in> {''being'', ''having'', ''doing'', ''going'', ''rising'', ''coming'', ''happening'',
        ''moving'', ''determining'', ''using''} \<Longrightarrow> BASE_VERB_TO_ING v = None"
  unfolding BASE_VERB_TO_ING_def
  by (elim insertE emptyE) simp_all

lemma ing_not_key: "BASE_VERB_TO_ING t \<noteq> None \<Longrightarrow> BASE_VERB_TO_ING (the (BASE_VERB_TO_ING t)) = None"
  using ing_cases[of t] ing_of_ing by (cases "BASE_VERB_TO_ING t") simp_all

lemma be_not_have:
  "p \<in> {''am'', ''is'', ''are'', ''was'', ''were''} \<Longrightarrow> p \<notin> {''has'', ''have'', ''had''}"
  by (elim insertE emptyE) simp_all

lemma past_cases:
  "dict_get IRREGULAR_PAST t t = t \<or>
   dict_get IRREGULAR_PAST t t \<in> {''moved'', ''gone'', ''come'', ''risen'', ''been'', ''had'', ''done''}"
  unfolding IRREGULAR_PAST_def dict_get_def
  by simp

lemma past_fixed:
  "v \<in> {''moved'', ''gone'', ''come'', ''risen'', ''been'', ''had'', ''done'', ''not''} \<Longrightarrow>
   dict_get IRREGULAR_PAST v v = v"
  unfolding IRREGULAR_PAST_def dict_get_def
  by (elim insertE emptyE) simp_all

lemma past_idem:
  "dict_get IRREGULAR_PAST (dict_get IRREGULAR_PAST t t) (dict_get IRREGULAR_PAST t t) =
   dict_get IRREGULAR_PAST t t"
proof -
  let ?v = "dict_get IRREGULAR_PAST t t"
  from past_cases[of t] show ?thesis
  proof
    assume "?v = t"
    then show ?thesis by simp
  next
    assume "?v \<in> {''moved'', ''gone'', ''come'', ''risen'', ''been'', ''had'', ''done''}"
    then have "?v \<in> {''moved'', ''gone'', ''come'', ''risen'', ''been'', ''had'', ''done'', ''not''}"
      by blast
    then show ?thesis by (rule past_fixed)
  qed
qed

lemma past_not: "dict_get IRREGULAR_PAST t t = ''not'' \<Longrightarrow> t = ''not''"
proof -
  assume a: "dict_get IRREGULAR_PAST t t = ''not''"
  have "''not'' \<notin> {''moved'', ''gone'', ''come'', ''risen'', ''been'', ''had'', ''done''}"
    by simp
  with past_cases[of t] a show ?thesis by metis
qed

section \<open>Shape of the result of the grammar transformer\<close>

lemma adg_result:
  "apply_display_grammar ts =
     Inr (map fst (rewrite_from [] ts), marked_from 0 (rewrite_from [] ts))"
  using adg_loop_rewrite_from[of "[]" 0 ts "[]"]
  by (simp add: apply_display_grammar_def prev_of_def)

lemma length_rewrite_from: "length (rewrite_from p ts) = length ts"
  by (induction p ts rule: rewrite_from.induct) (simp_all del: insert_iff split: list.splits)

lemma marked_from_iff:
  "k \<in> set (marked_from i xs) \<longleftrightarrow> i \<le> k \<and> k - i < length xs \<and> snd (xs ! (k - i))"
proof (induction xs arbitrary: i)
  case Nil
  then show ?case by simp
next
  case (Cons x xs)
  obtain t b where x: "x = (t, b)" by (cases x)
  show ?case
  proof (cases "k = i")
    case True
    then show ?thesis using Cons.IH[of "Suc i"] x by auto
  next
    case False
    then show ?thesis using Cons.IH[of "Suc i"] x
      by (auto simp: nth_Cons' Suc_diff_le less_diff_conv)
  qed
qed

lemma sorted_marked_from: "sorted_wrt (<) (marked_from i xs)"
proof (induction xs arbitrary: i)
  case Nil
  then show ?case by simp
next
  case (Cons x xs)
  obtain t b where x: "x = (t, b)" by (cases x)
  have "\<forall>k \<in> set (marked_from (Suc i) xs). i < k"
    by (simp add: marked_from_iff)
  with Cons.IH[of "Suc i"] x show ?case by simp
qed

lemma rewrite_from_Cons_cases:
  obtains
    (A) "prev \<in> {''am'', ''is'', ''are'', ''was'', ''were''}" "BASE_VERB_TO_ING tok \<noteq> None"
        "rewrite_from prev (tok # rest) =
           (the (BASE_VERB_TO_ING tok), True) # rewrite_from (the (BASE_VERB_TO_ING tok)) rest"
  | (Bnot) next_tok rest' where "prev \<in> {''has'', ''have'', ''had''}" "tok = ''not''"
        "rest = next_tok # rest'"
        "rewrite_from prev (tok # rest) =
           (tok, False) # (dict_get IRREGULAR_PAST next_tok next_tok, True)
             # rewrite_from (dict_get IRREGULAR_PAST next_tok next_tok) rest'"
  | (B) "prev \<in> {''has'', ''have'', ''had''}" "tok = ''not'' \<Longrightarrow> rest = []"
        "rewrite_from prev (tok # rest) =
           (dict_get IRREGULAR_PAST tok tok, True) # rewrite_from (dict_get IRREGULAR_PAST tok tok) rest"
  | (D) "\<not> (prev \<in> {''am'', ''is'', ''are'', ''was'', ''were''} \<and> BASE_VERB_TO_ING tok \<noteq> None)"
        "prev \<notin> {''has'', ''have'', ''had''}"
        "rewrite_from prev (tok # rest) = (tok, False) # rewrite_from tok rest"
proof (cases "prev \<in> {''am'', ''is'', ''are'', ''was'', ''were''} \<and> BASE_VERB_TO_ING tok \<noteq> None")
  case True
  have "rewrite_from prev (tok # rest) =
          (the (BASE_VERB_TO_ING tok), True) # rewrite_from (the (BASE_VERB_TO_ING tok)) rest"
    by (subst rewrite_from.simps(2)) (simp only: if_P[OF True])
  with True show ?thesis by (intro A) blast+
next
  case nA: False
  show ?thesis
  proof (cases "prev \<in> {''has'', ''have'', ''had''}")
    case False
    have "rewrite_from prev (tok # rest) = (tok, False) # rewrite_from tok rest"
      by (subst rewrite_from.simps(2)) (simp only: if_not_P[OF nA] if_not_P[OF False])
    with nA False show ?thesis by (intro D)
  next
    case H: True
    show ?thesis
    proof (cases rest)
      case Nil
      have "rewrite_from prev (tok # rest) =
              (dict_get IRREGULAR_PAST tok tok, True) # rewrite_from (dict_get IRREGULAR_PAST tok tok) rest"
        unfolding Nil
        by (subst rewrite_from.simps(2))
           (simp only: if_not_P[OF nA] if_P[OF H] list.case rewrite_from.simps(1))
      with H Nil show ?thesis by (intro B)
    next
      case (Cons n r)
      show ?thesis
      proof (cases "tok = ''not''")
        case True
        have "rewrite_from prev (tok # rest) =
                (tok, False) # (dict_get IRREGULAR_PAST n n, True)
                  # rewrite_from (dict_get IRREGULAR_PAST n n) r"
          unfolding Cons
          by (subst rewrite_from.simps(2))
             (simp only: if_not_P[OF nA] if_P[OF H] list.case if_P[OF True])
        with H True Cons show ?thesis by (intro Bnot)
      next
        case False
        have "rewrite_from prev (tok # rest) =
                (dict_get IRREGULAR_PAST tok tok, True)
                  # rewrite_from (dict_get IRREGULAR_PAST tok tok) rest"
          unfolding Cons
          by (subst rewrite_from.simps(2))
             (simp only: if_not_P[OF nA] if_P[OF H] list.case if_not_P[OF False])
        with H False show ?thesis by (intro B) simp_all
      qed
    qed
  qed
qed

lemma rewrite_from_frame:
  "k < length ts \<Longrightarrow> \<not> snd (rewrite_from p ts ! k) \<Longrightarrow> fst (rewrite_from p ts ! k) = ts ! k"
proof (induction ts arbitrary: p k rule: length_induct)
  case (1 ts)
  note IH = "1.IH"[rule_format]
  show ?case
  proof (cases ts)
    case Nil
    with "1.prems" show ?thesis by simp
  next
    case (Cons tok rest)
    show ?thesis
    proof (cases rule: rewrite_from_Cons_cases[of p tok rest])
      case A
      from "1.prems" Cons A(3) obtain j where k: "k = Suc j"
        by (cases k) auto
      with "1.prems" Cons A(3) IH[of rest j "the (BASE_VERB_TO_ING tok)"] show ?thesis
        by simp
    next
      case (Bnot n r)
      show ?thesis
      proof (cases k)
        case 0
        with Cons Bnot(4) show ?thesis by simp
      next
        case (Suc j)
        show ?thesis
        proof (cases j)
          case 0
          with Suc "1.prems" Cons Bnot(4) show ?thesis by simp
        next
          case (Suc m)
          with \<open>k = Suc j\<close> "1.prems" Cons Bnot(3,4)
            IH[of r m "dict_get IRREGULAR_PAST n n"] show ?thesis
            by simp
        qed
      qed
    next
      case B
      from "1.prems" Cons B(3) obtain j where k: "k = Suc j"
        by (cases k) auto
      with "1.prems" Cons B(3) IH[of rest j "dict_get IRREGULAR_PAST tok tok"] show ?thesis
        by simp
    next
      case D
      show ?thesis
      proof (cases k)
        case 0
        with Cons D(3) show ?thesis by simp
      next
        case (Suc j)
        with "1.prems" Cons D(3) IH[of rest j tok] show ?thesis by simp
      qed
    qed
  qed
qed

lemma rewrite_from_idem:
  "map fst (rewrite_from p (map fst (rewrite_from p ts))) = map fst (rewrite_from p ts) \<and>
   (\<forall>k < length ts. snd (rewrite_from p (map fst (rewrite_from p ts)) ! k) \<longrightarrow>
        snd (rewrite_from p ts ! k))"
proof (induction ts arbitrary: p rule: length_induct)
  case (1 ts)
  note IH = "1.IH"[rule_format]
  show ?case
  proof (cases ts)
    case Nil
    then show ?thesis by simp
  next
    case (Cons tok rest)
    show ?thesis
    proof (cases rule: rewrite_from_Cons_cases[of p tok rest])
      case A
      let ?v = "the (BASE_VERB_TO_ING tok)"
      have nk: "\<not> (p \<in> {''am'', ''is'', ''are'', ''was'', ''were''} \<and> BASE_VERB_TO_ING ?v \<noteq> None)"
        using ing_not_key[OF A(2)] by simp
      have nh: "p \<notin> {''has'', ''have'', ''had''}"
        using A(1) by (rule be_not_have)
      have snd_pass: "rewrite_from p (?v # map fst (rewrite_from ?v rest)) =
                        (?v, False) # rewrite_from ?v (map fst (rewrite_from ?v rest))"
        by (subst rewrite_from.simps(2)) (simp only: if_not_P[OF nk] if_not_P[OF nh])
      from IH[of rest ?v] Cons show ?thesis
        by (simp add: A(3) snd_pass nth_Cons' del: rewrite_from.simps)
    next
      case (Bnot n r)
      let ?v = "dict_get IRREGULAR_PAST n n"
      have nA: "\<not> (p \<in> {''am'', ''is'', ''are'', ''was'', ''were''} \<and> BASE_VERB_TO_ING tok \<noteq> None)"
        using be_not_have[of p] Bnot(1) by blast
      have snd_pass: "rewrite_from p (tok # ?v # map fst (rewrite_from ?v r)) =
                        (tok, False) # (?v, True) # rewrite_from ?v (map fst (rewrite_from ?v r))"
        by (subst rewrite_from.simps(2))
           (simp only: if_not_P[OF nA] if_P[OF Bnot(1)] list.case if_P[OF Bnot(2)] past_idem)
      from IH[of r ?v] Cons Bnot(3) show ?thesis
        by (simp add: Bnot(4)[unfolded Bnot(3)] snd_pass nth_Cons' del: rewrite_from.simps)
    next
      case B
      let ?v = "dict_get IRREGULAR_PAST tok tok"
      have nA: "\<not> (p \<in> {''am'', ''is'', ''are'', ''was'', ''were''} \<and> BASE_VERB_TO_ING ?v \<noteq> None)"
        using be_not_have[of p] B(1) by blast
      have e: "?v = ''not'' \<Longrightarrow> map fst (rewrite_from ?v rest) = []"
        using past_not[of tok] B(2) by simp
      have snd_pass: "rewrite_from p (?v # map fst (rewrite_from ?v rest)) =
                        (?v, True) # rewrite_from ?v (map fst (rewrite_from ?v rest))"
      proof (cases "map fst (rewrite_from ?v rest)")
        case Nil
        show ?thesis unfolding Nil
          by (subst rewrite_from.simps(2))
             (simp only: if_not_P[OF nA] if_P[OF B(1)] list.case rewrite_from.simps(1) past_idem)
      next
        case (Cons a l)
        with e have ne: "?v \<noteq> ''not''" by auto
        show ?thesis unfolding Cons
          by (subst rewrite_from.simps(2))
             (simp only: if_not_P[OF nA] if_P[OF B(1)] list.case if_not_P[OF ne] past_idem)
      qed
      from IH[of rest ?v] Cons show ?thesis
        by (simp add: B(3) snd_pass nth_Cons' del: rewrite_from.simps)
    next
      case D
      have snd_pass: "rewrite_from p (tok # map fst (rewrite_from tok rest)) =
                        (tok, False) # rewrite_from tok (map fst (rewrite_from tok rest))"
        by (subst rewrite_from.simps(2)) (simp only: if_not_P[OF D(1)] if_not_P[OF D(2)])
      from IH[of rest tok] Cons show ?thesis
        by (simp add: D(3) snd_pass nth_Cons' del: rewrite_from.simps)
    qed
  qed
qed

lemma adg_has_not_move:
  "apply_display_grammar [''has'', ''not'', ''move''] = Inr ([''has'', ''not'', ''moved''], [2])"
  by (simp add: adg_result IRREGULAR_PAST_def BASE_VERB_TO_ING_def dict_get_def)

section \<open>The regex scan and the runs of word characters\<close>

lemma az_ascii: "is_az c \<Longrightarrow> is_ascii c"
  unfolding is_az_def ascii_lowercase_def
  by (auto simp: is_ascii_def)

lemma az_word: "is_az c \<Longrightarrow> is_word_char uw c"
  by (simp add: is_word_char_def is_alpha_def az_ascii) (simp add: is_az_def)

lemma az_prefix:
  assumes "k < length (takeWhile is_az s)"
  shows "is_az (s ! k)" and "k < length s"
proof -
  have "takeWhile is_az s ! k \<in> set (takeWhile is_az s)"
    using assms by (rule nth_mem)
  then have "is_az (takeWhile is_az s ! k)"
    by (rule set_takeWhileD[THEN conjunct2])
  then show "is_az (s ! k)"
    using assms by (simp add: takeWhile_nth)
  show "k < length s"
    using assms length_takeWhile_le[of is_az s] by simp
qed

lemma nth_opt_takeWhile:
  "nth_opt s (length (takeWhile P s)) = (case dropWhile P s of [] \<Rightarrow> None | y # _ \<Rightarrow> Some y)"
  by (induction s) (auto simp: nth_opt_def)

lemma backtrack_None:
  "(\<And>k. k < n \<Longrightarrow> \<not> word_boundary uw (Some (s ! k)) (nth_opt s (Suc k))) \<Longrightarrow> backtrack uw s n = None"
  by (induction n) auto

lemma backtrack_takeWhile:
  "backtrack uw s (length (takeWhile is_az s)) =
     (if 0 < length (takeWhile is_az s) \<and> \<not> is_word_opt uw (nth_opt s (length (takeWhile is_az s)))
      then Some (length (takeWhile is_az s)) else None)"
proof (cases "length (takeWhile is_az s)")
  case 0
  then show ?thesis by simp
next
  case (Suc m)
  have inner: "backtrack uw s m = None"
  proof (rule backtrack_None)
    fix k assume "k < m"
    then have "is_az (s ! k)" "is_az (s ! Suc k)" "Suc k < length s"
      using Suc az_prefix[of k s] az_prefix[of "Suc k" s] by simp_all
    then show "\<not> word_boundary uw (Some (s ! k)) (nth_opt s (Suc k))"
      by (simp add: word_boundary_def nth_opt_def az_word)
  qed
  have "is_word_char uw (s ! m)"
    using Suc az_prefix(1)[of m s] by (simp add: az_word)
  then show ?thesis
    by (simp add: Suc inner word_boundary_def)
qed

lemma match_at_eq:
  "match_at uw prev s =
     (if \<not> is_word_opt uw prev \<and> 0 < length (takeWhile is_az s) \<and>
         \<not> is_word_opt uw (nth_opt s (length (takeWhile is_az s)))
      then Some (length (takeWhile is_az s)) else None)"
proof (cases "0 < length (takeWhile is_az s)")
  case False
  then show ?thesis by (simp add: match_at_def)
next
  case True
  then have "is_az (s ! 0)" "0 < length s"
    using az_prefix[of 0 s] by simp_all
  then have "is_word_opt uw (nth_opt s 0)"
    by (simp add: nth_opt_def az_word)
  then show ?thesis
    by (simp add: match_at_def backtrack_takeWhile word_boundary_def)
qed

lemma takeWhile_word_eq:
  "\<not> is_word_opt uw (nth_opt s (length (takeWhile is_az s))) \<Longrightarrow>
   takeWhile (is_word_char uw) s = takeWhile is_az s \<and> dropWhile (is_word_char uw) s = dropWhile is_az s"
  unfolding nth_opt_takeWhile
  by (induction s) (auto simp: az_word split: if_splits)

lemma takeWhile_word_blocked:
  "is_word_opt uw (nth_opt s (length (takeWhile is_az s))) \<Longrightarrow>
   \<not> list_all is_az (takeWhile (is_word_char uw) s)"
  unfolding nth_opt_takeWhile
  by (induction s) (auto simp: az_word split: if_splits)

lemma findall_from_runs:
  "findall_from uw prev s =
     filter (list_all is_az)
       (runs (is_word_char uw) (if is_word_opt uw prev then dropWhile (is_word_char uw) s else s))"
proof (induction uw prev s rule: findall_from.induct)
  case (1 uw prev)
  show ?case by simp
next
  case (2 uw prev c cs)
  let ?s = "c # cs"
  let ?n = "length (takeWhile is_az ?s)"
  show ?case
  proof (cases "\<not> is_word_opt uw prev \<and> 0 < ?n \<and> \<not> is_word_opt uw (nth_opt ?s ?n)")
    case True
    have m: "match_at uw prev ?s = Some ?n"
      by (subst match_at_eq) (rule if_P[OF True])
    have step: "findall_from uw prev ?s =
                  take ?n ?s # findall_from uw (nth_opt ?s (?n - 1)) (drop ?n ?s)"
      by (subst findall_from.simps(2)) (simp only: m option.case)
    have last_word: "is_word_opt uw (nth_opt ?s (?n - 1))"
      using True az_prefix[of "?n - 1" ?s] by (simp add: nth_opt_def az_word)
    have tw: "takeWhile (is_word_char uw) ?s = takeWhile is_az ?s"
      and dw: "dropWhile (is_word_char uw) ?s = dropWhile is_az ?s"
      using True takeWhile_word_eq[of uw ?s] by blast+
    have c_word: "is_word_char uw c"
      using True by (auto simp: az_word split: if_splits)
    have rest: "drop ?n ?s = dropWhile (is_word_char uw) cs"
      using dw c_word by (simp add: dropWhile_eq_drop[symmetric])
    have first: "take ?n ?s = c # takeWhile (is_word_char uw) cs"
      using tw c_word by (simp add: takeWhile_eq_take[symmetric])
    have all_az: "list_all is_az (c # takeWhile (is_word_char uw) cs)"
      unfolding first[symmetric] takeWhile_eq_take[symmetric]
      by (simp add: list_all_iff) (metis set_takeWhileD)
    have "findall_from uw (nth_opt ?s (?n - 1)) (drop ?n ?s) =
            filter (list_all is_az) (runs (is_word_char uw) (dropWhile (is_word_char uw) (drop ?n ?s)))"
      using "2.IH"(2)[OF m] last_word by (simp only: if_True)
    also have "dropWhile (is_word_char uw) (drop ?n ?s) = dropWhile (is_word_char uw) cs"
      unfolding rest by (rule dropWhile_idem)
    finally have tail: "findall_from uw (nth_opt ?s (?n - 1)) (drop ?n ?s) =
            filter (list_all is_az) (runs (is_word_char uw) (dropWhile (is_word_char uw) cs))" .
    have "filter (list_all is_az) (runs (is_word_char uw) ?s) =
            (c # takeWhile (is_word_char uw) cs)
              # filter (list_all is_az) (runs (is_word_char uw) (dropWhile (is_word_char uw) cs))"
      using c_word all_az by simp
    with True show ?thesis
      unfolding step tail first by (simp only: if_False)
  next
    case False
    have m: "match_at uw prev ?s = None"
      by (subst match_at_eq) (rule if_not_P[OF False])
    have step: "findall_from uw prev ?s = findall_from uw (Some c) cs"
      by (subst findall_from.simps(2)) (simp only: m option.case)
    have IH: "findall_from uw (Some c) cs =
                filter (list_all is_az)
                  (runs (is_word_char uw) (if is_word_char uw c then dropWhile (is_word_char uw) cs else cs))"
      using "2.IH"(1)[OF m] by simp
    show ?thesis
    proof (cases "is_word_char uw c")
      case nw: False
      then show ?thesis unfolding step IH by simp
    next
      case w: True
      show ?thesis
      proof (cases "is_word_opt uw prev")
        case True
        with w show ?thesis unfolding step IH by simp
      next
        case np: False
        with False have "?n = 0 \<or> is_word_opt uw (nth_opt ?s ?n)" by blast
        then have "\<not> list_all is_az (takeWhile (is_word_char uw) ?s)"
        proof
          assume "?n = 0"
          then have "\<not> is_az c" by (auto split: if_splits)
          with w show ?thesis by simp
        next
          assume "is_word_opt uw (nth_opt ?s ?n)"
          then show ?thesis by (rule takeWhile_word_blocked)
        qed
        with w np show ?thesis unfolding step IH by simp
      qed
    qed
  qed
qed

lemma tokenize_runs:
  "tokenize uw ul text = filter (list_all is_az) (runs (is_word_char uw) (str_lower ul text))"
  by (simp add: tokenize_def re_findall_def findall_from_runs)

lemma runs_nonempty: "[] \<notin> set (runs P xs)"
  by (induction P xs rule: runs.induct) auto

lemma findall_from_no_letters:
  "\<forall>c \<in> set s. \<not> is_az c \<Longrightarrow> findall_from uw prev s = []"
proof (induction s arbitrary: prev)
  case Nil
  show ?case by simp
next
  case (Cons c cs)
  then have "match_at uw prev (c # cs) = None"
    by (simp add: match_at_eq)
  with Cons show ?case by simp
qed

lemma ascii_lower_other: "c \<notin> set ascii_uppercase \<Longrightarrow> ascii_lower c = c"
proof -
  assume a: "c \<notin> set ascii_uppercase"
  have "map fst (zip ascii_uppercase ascii_lowercase) = ascii_uppercase"
    by (rule map_fst_zip) (simp add: ascii_uppercase_def ascii_lowercase_def)
  then have "fst ` set (zip ascii_uppercase ascii_lowercase) = set ascii_uppercase"
    by (metis set_map)
  with a have "map_of (zip ascii_uppercase ascii_lowercase) c = None"
    by (simp add: map_of_eq_None_iff)
  then show ?thesis by (simp add: ascii_lower_def)
qed

lemma ascii_lower_not_az: "\<not> is_alpha c \<Longrightarrow> \<not> is_az (ascii_lower c)"
  by (simp add: is_alpha_def is_az_def ascii_lower_other)

lemma tokenize_abc123: "tokenize uw ul ''abc123'' = []"
  by (simp add: tokenize_runs str_lower_def ascii_lower_def ascii_uppercase_def
        ascii_lowercase_def digits_def is_word_char_def is_alpha_def is_az_def is_ascii_def)

lemma runs_abc123: "runs is_az (str_lower ul ''abc123'') = [''abc'']"
  by (simp add: str_lower_def ascii_lower_def ascii_uppercase_def
        ascii_lowercase_def is_az_def is_ascii_def)

lemma tokenize_sample: "tokenize uw ul ''62% of Bitcoin x_y'' = [''of'', ''bitcoin'']"
  by (simp add: tokenize_runs str_lower_def ascii_lower_def ascii_uppercase_def
        ascii_lowercase_def digits_def is_word_char_def is_alpha_def is_az_def is_ascii_def)

lemma exempt_lower: "w \<in> FUNCTION_WORDS \<union> AUX_VERBS \<Longrightarrow> str_lower ul w = w"
  unfolding FUNCTION_WORDS_def AUX_VERBS_def
  by (elim UnE insertE emptyE)
     (simp_all add: str_lower_def ascii_lower_def ascii_uppercase_def ascii_lowercase_def
        is_ascii_def)

section \<open>Edit distances used below\<close>

lemma ed_recieve_receive: "edit_distance ''recieve'' ''receive'' = 2"
  by code_simp

lemma ed_recieve_relieve: "edit_distance ''recieve'' ''relieve'' = 1"
  by code_simp




section \<open>The ranker of the specification and the sort of app.py\<close>

lemma ranked_suggestions_sorted_stable:
  "sorted (map (edit_distance (err_word e)) (ranked_suggestions e)) \<and>
   filter (\<lambda>w. edit_distance (err_word e) w = k) (ranked_suggestions e) =
   filter (\<lambda>w. edit_distance (err_word e) w = k)
     (case err_suggestions e of Some sugg \<Rightarrow> sugg | None \<Rightarrow> [])"
  by (simp add: ranked_suggestions_def sort_key_stable)







section \<open>Properties of the grammar transformer\<close>

text \<open>
  C4: for every input lemma sequence the transformer returns (it raises no error), and the
  display-token sequence it returns has exactly the length of the input sequence.
\<close>

theorem display_length_preserved:
  "\<exists>d g. apply_display_grammar ts = Inr (d, g) \<and> length d = length ts"
  by (simp add: adg_result length_rewrite_from)

text \<open>
  C10: the list of corrected positions returned by the transformer is strictly increasing,
  hence free of duplicates.
\<close>

theorem grammar_indices_strictly_increasing:
  "\<exists>d g. apply_display_grammar ts = Inr (d, g) \<and> sorted_wrt (<) g \<and> distinct g"
proof -
  let ?g = "marked_from 0 (rewrite_from [] ts)"
  have s: "sorted_wrt (<) ?g" by (rule sorted_marked_from)
  then have "distinct ?g" by (simp add: strict_sorted_iff)
  with s show ?thesis by (simp add: adg_result)
qed

text \<open>
  C7: for every input lemma sequence the transformer returns, and every index in the
  returned list of corrected positions is a valid index into the returned display
  sequence (indices are natural numbers, so at least 0, and each is below the length).
\<close>

theorem grammar_indices_valid:
  "\<exists>d g. apply_display_grammar ts = Inr (d, g) \<and> (\<forall>i \<in> set g. i < length d)"
  by (simp add: adg_result marked_from_iff length_rewrite_from)

theorem grammar_indices_valid_witness:
  "apply_display_grammar [''has'', ''not'', ''move''] = Inr ([''has'', ''not'', ''moved''], [2]) \<and>
   (2 :: nat) \<in> set [2] \<and> (2 :: nat) < length [''has'', ''not'', ''moved'']"
  using grammar_indices_valid[of "[''has'', ''not'', ''move'']"]
  by (simp add: adg_has_not_move)

text \<open>
  C9 (frame property): for every input lemma sequence the transformer returns, and every
  output position that is not in the returned list of corrected positions holds exactly
  the input lemma of that position.
\<close>

theorem unrecorded_positions_unchanged:
  "\<exists>d g. apply_display_grammar ts = Inr (d, g) \<and>
     (\<forall>p < length d. p \<notin> set g \<longrightarrow> d ! p = ts ! p)"
proof -
  let ?R = "rewrite_from [] ts"
  have "map fst ?R ! p = ts ! p" if "p < length ts" and "p \<notin> set (marked_from 0 ?R)" for p
  proof -
    from that have "\<not> snd (?R ! p)"
      by (simp add: marked_from_iff length_rewrite_from)
    with that(1) have "fst (?R ! p) = ts ! p"
      by (rule rewrite_from_frame)
    with that(1) show ?thesis by (simp add: length_rewrite_from)
  qed
  then show ?thesis
    by (simp add: adg_result length_rewrite_from)
qed

theorem unrecorded_positions_unchanged_witness:
  "apply_display_grammar [''has'', ''not'', ''move''] = Inr ([''has'', ''not'', ''moved''], [2]) \<and>
   (1 :: nat) < length [''has'', ''not'', ''moved''] \<and> (1 :: nat) \<notin> set [2] \<and>
   [''has'', ''not'', ''moved''] ! 1 = [''has'', ''not'', ''move''] ! 1"
  using unrecorded_positions_unchanged[of "[''has'', ''not'', ''move'']"]
  by (simp add: adg_has_not_move)

text \<open>
  C3, as stated, fails: on the lemmas \<open>is rise\<close> the transformer returns the display
  \<open>is rising\<close> with the corrected position 1; run on \<open>is rising\<close> it returns the
  same display but no corrected position, since \<open>rising\<close> is not a key of the
  participle table and the progressive rule does not fire again.
\<close>

theorem idempotence_counterexample:
  "apply_display_grammar [''is'', ''rise''] = Inr ([''is'', ''rising''], [1]) \<and>
   apply_display_grammar [''is'', ''rising''] = Inr ([''is'', ''rising''], []) \<and>
   apply_display_grammar [''is'', ''rising''] \<noteq> apply_display_grammar [''is'', ''rise'']"
  by (simp add: adg_result IRREGULAR_PAST_def BASE_VERB_TO_ING_def dict_get_def)

text \<open>
  C3, amended: the display-token sequence is a fixed point. For every lemma sequence the
  transformer returns some display \<open>d\<close> and positions \<open>g\<close>; run on \<open>d\<close> it returns
  the same display \<open>d\<close>, and the positions it records then are among those of the first
  run.
\<close>

theorem display_idempotent:
  "\<exists>d g g'. apply_display_grammar ts = Inr (d, g) \<and>
      apply_display_grammar d = Inr (d, g') \<and> set g' \<subseteq> set g"
proof -
  let ?R = "rewrite_from [] ts"
  let ?d = "map fst ?R"
  let ?R2 = "rewrite_from [] ?d"
  have fp: "map fst ?R2 = ?d"
    using rewrite_from_idem[of "[]" ts] by blast
  have flags: "snd (?R ! k)" if "k < length ts" and "snd (?R2 ! k)" for k
    using rewrite_from_idem[of "[]" ts] that by blast
  have "set (marked_from 0 ?R2) \<subseteq> set (marked_from 0 ?R)"
  proof
    fix k
    assume "k \<in> set (marked_from 0 ?R2)"
    then have "k < length ts" and "snd (?R2 ! k)"
      by (simp_all add: marked_from_iff length_rewrite_from)
    then show "k \<in> set (marked_from 0 ?R)"
      using flags by (simp add: marked_from_iff length_rewrite_from)
  qed
  moreover have "apply_display_grammar ?d = Inr (?d, marked_from 0 ?R2)"
    using fp by (simp only: adg_result)
  ultimately show ?thesis
    using adg_result[of ts] by blast
qed

section \<open>Properties of the candidate ranker and the detector\<close>

text \<open>
  C1, as stated, fails: the Levenshtein distance from \<open>recieve\<close> to \<open>relieve\<close> is
  not 3 (one substitution, c for l, suffices), and the ranked list for the candidates
  \<open>receive\<close>, \<open>relieve\<close> does not begin with \<open>receive\<close>.
\<close>

theorem recieve_ranking_counterexample:
  "\<not> (edit_distance ''recieve'' ''receive'' = 2 \<and>
      edit_distance ''recieve'' ''relieve'' = 3 \<and>
      take 2 (ranked_suggestions
        \<lparr>err_word = ''recieve'', err_type = ''spelling'',
         err_suggestions = Some [''receive'', ''relieve'']\<rparr>) = [''receive'', ''relieve''])"
  by (simp add: ed_recieve_relieve del: edit_distance.simps)

text \<open>
  C1, amended: the distance from \<open>recieve\<close> to \<open>receive\<close> is 2 and to
  \<open>relieve\<close> it is 1, and the suggestion list, sorted ascending by edit distance, is
  \<open>relieve\<close> then \<open>receive\<close>, in whichever order the two candidates are supplied.
\<close>

theorem recieve_ranking:
  "edit_distance ''recieve'' ''receive'' = 2 \<and>
   edit_distance ''recieve'' ''relieve'' = 1 \<and>
   ranked_suggestions
     \<lparr>err_word = ''recieve'', err_type = ''spelling'',
      err_suggestions = Some [''receive'', ''relieve'']\<rparr> = [''relieve'', ''receive''] \<and>
   ranked_suggestions
     \<lparr>err_word = ''recieve'', err_type = ''spelling'',
      err_suggestions = Some [''relieve'', ''receive'']\<rparr> = [''relieve'', ''receive''] \<and>
   suggestion_map
     [\<lparr>err_word = ''recieve'', err_type = ''spelling'',
       err_suggestions = Some [''receive'', ''relieve'']\<rparr>] ''recieve'' =
     Some [''relieve'', ''receive'']"
  by (simp add: ranked_suggestions_def suggestion_map_def ed_recieve_receive ed_recieve_relieve
        del: edit_distance.simps)



text \<open>
  C6: for every input text and every vocabulary, no function word and no auxiliary verb
  of the fixed tables is in the set of flagged words, whether or not the vocabulary
  contains it; and the page never highlights such a word as a spelling error.
\<close>

theorem exempt_words_never_flagged:
  assumes "w \<in> FUNCTION_WORDS \<union> AUX_VERBS"
  shows "w \<notin> spelling_words
           (detect_errors vocab candidates (preprocess_user_input uw ul pos_tag lemmatize text)) \<and>
         highlighted ul
           (spelling_words
              (detect_errors vocab candidates (preprocess_user_input uw ul pos_tag lemmatize text)))
           grammar_indices i w \<noteq> Red"
proof -
  have "w \<notin> spelling_words
           (detect_errors vocab candidates (preprocess_user_input uw ul pos_tag lemmatize text))"
    using assms by (auto simp: spelling_words_def detect_errors_def)
  then show ?thesis
    using exempt_lower[OF assms] by (simp add: highlighted_def)
qed

theorem exempt_words_never_flagged_witness:
  "''the'' \<in> FUNCTION_WORDS \<union> AUX_VERBS \<and>
   ''the'' \<notin> spelling_words
      (detect_errors {''cat''} (\<lambda>w. [])
         (preprocess_user_input (\<lambda>c. False) (\<lambda>s. s) (\<lambda>ts. map (\<lambda>t. (t, ''NN'')) ts) (\<lambda>w p. w) ''the dog'')) \<and>
   highlighted (\<lambda>s. s)
     (spelling_words
        (detect_errors {''cat''} (\<lambda>w. [])
           (preprocess_user_input (\<lambda>c. False) (\<lambda>s. s) (\<lambda>ts. map (\<lambda>t. (t, ''NN'')) ts) (\<lambda>w p. w) ''the dog'')))
     [] 0 ''the'' \<noteq> Red"
proof -
  have h: "''the'' \<in> FUNCTION_WORDS \<union> AUX_VERBS"
    by (simp add: FUNCTION_WORDS_def)
  from h exempt_words_never_flagged[OF h] show ?thesis by blast
qed

section \<open>Properties of the tokenizer\<close>

text \<open>
  C2, as stated, fails: in \<open>abc123\<close> the maximal run of letters is \<open>abc\<close>, but the
  tokenizer extracts nothing from it. The pattern asks for a word boundary after the
  letters, and there is none between \<open>c\<close> and \<open>1\<close>, both being word characters. The
  text is ASCII, so the two Unicode parameters are not consulted (lemmas
  \<open>tokenize_abc123\<close> and \<open>runs_abc123\<close> hold for all of them).
\<close>

theorem tokenizer_counterexample:
  "tokenize (\<lambda>c. False) (\<lambda>s. s) ''abc123'' = [] \<and>
   runs is_az (str_lower (\<lambda>s. s) ''abc123'') = [''abc''] \<and>
   tokenize (\<lambda>c. False) (\<lambda>s. s) ''abc123'' \<noteq> runs is_az (str_lower (\<lambda>s. s) ''abc123'')"
  by (simp add: tokenize_abc123 runs_abc123)

text \<open>
  C2, amended: for every input text, and whatever the Unicode tables say outside ASCII,
  the tokens are exactly, and in order, those maximal runs of word characters (the
  characters matching \<^verbatim>\<open>\w\<close>: letters, digits, underscore) of the lowercased text that
  consist of the letters \<open>a\<close> to \<open>z\<close> only. Every non-word character is a separator; a
  run of letters that touches a digit, an underscore or another word character is dropped
  with it. Every token is a non-empty string of letters \<open>a\<close> to \<open>z\<close>: digits,
  punctuation and symbols never appear in the output.
\<close>

theorem tokenize_word_runs:
  "tokenize uw ul text = filter (list_all is_az) (runs (is_word_char uw) (str_lower ul text)) \<and>
   (\<forall>t \<in> set (tokenize uw ul text). t \<noteq> [] \<and> (\<forall>c \<in> set t. is_az c))"
proof -
  have "t \<noteq> [] \<and> (\<forall>c \<in> set t. is_az c)" if "t \<in> set (tokenize uw ul text)" for t
  proof -
    from that have "t \<in> set (runs (is_word_char uw) (str_lower ul text))" and "list_all is_az t"
      by (simp_all add: tokenize_runs)
    then show ?thesis
      using runs_nonempty[of "is_word_char uw" "str_lower ul text"] by (auto simp: list_all_iff)
  qed
  then show ?thesis by (simp add: tokenize_runs)
qed

theorem tokenize_word_runs_witness:
  "tokenize (\<lambda>c. False) (\<lambda>s. s) ''62% of Bitcoin x_y'' =
     filter (list_all is_az)
       (runs (is_word_char (\<lambda>c. False)) (str_lower (\<lambda>s. s) ''62% of Bitcoin x_y'')) \<and>
   tokenize (\<lambda>c. False) (\<lambda>s. s) ''62% of Bitcoin x_y'' = [''of'', ''bitcoin'']"
  using tokenize_word_runs[of "\<lambda>c. False" "\<lambda>s. s" "''62% of Bitcoin x_y''"]
    tokenize_sample[of "\<lambda>c. False" "\<lambda>s. s"]
  by blast

text \<open>
  C8: an input without any letter, the empty and the whitespace-only input among them, is
  not an error. The tokenizer returns no token, the lemma sequence is empty (the tagger
  returning no pair for no token), and the grammar transformer on the empty sequence
  returns the empty display sequence and no corrected position.
\<close>

theorem no_letters_empty_result:
  assumes "\<forall>c \<in> set text. is_ascii c"
    and "\<forall>c \<in> set text. \<not> is_alpha c"
    and "pos_tag [] = []"
  shows "tokenize uw ul text = [] \<and>
         preprocess_user_input uw ul pos_tag lemmatize text = [] \<and>
         apply_display_grammar (preprocess_user_input uw ul pos_tag lemmatize text) = Inr ([], []) \<and>
         apply_display_grammar [] = Inr ([], [])"
proof -
  have "str_lower ul text = map ascii_lower text"
    using assms(1) by (simp add: str_lower_def list_all_iff)
  then have "\<forall>c \<in> set (str_lower ul text). \<not> is_az c"
    using assms(2) by (simp add: ascii_lower_not_az)
  then have t: "tokenize uw ul text = []"
    by (simp add: tokenize_def re_findall_def findall_from_no_letters)
  then have p: "preprocess_user_input uw ul pos_tag lemmatize text = []"
    using assms(3) by (simp add: preprocess_user_input_def)
  have "apply_display_grammar [] = Inr ([], [])"
    by (simp add: adg_result)
  with t p show ?thesis by simp
qed

theorem no_letters_empty_result_witness:
  "tokenize (\<lambda>c. False) (\<lambda>s. s) '' 62% '' = [] \<and>
   preprocess_user_input (\<lambda>c. False) (\<lambda>s. s)
     (\<lambda>ts. map (\<lambda>t. (t, ''NN'')) ts) (\<lambda>w p. w) '' 62% '' = [] \<and>
   apply_display_grammar
     (preprocess_user_input (\<lambda>c. False) (\<lambda>s. s)
        (\<lambda>ts. map (\<lambda>t. (t, ''NN'')) ts) (\<lambda>w p. w) '' 62% '') = Inr ([], [])"
proof -
  have h1: "\<forall>c \<in> set '' 62% ''. is_ascii c"
    by (simp add: is_ascii_def)
  have h2: "\<forall>c \<in> set '' 62% ''. \<not> is_alpha c"
    by (simp add: is_alpha_def ascii_lowercase_def ascii_uppercase_def)
  show ?thesis
    using h1 h2
      no_letters_empty_result[of "'' 62% ''" "\<lambda>ts. map (\<lambda>t. (t, ''NN'')) ts"
        "\<lambda>c. False" "\<lambda>s. s" "\<lambda>w p. w"]
    by simp
qed

end
